theory Spec2Isabelle
  imports Main "HOL-Library.Word"
begin

section \<open>Data model\<close>

text \<open>
  The package \<^verbatim>\<open>gorb\<close> keeps one master connection and a list of read connections,
  all of type \<^verbatim>\<open>*gorp.DbMap\<close>. A pointer is either \<^verbatim>\<open>nil\<close> or the address of an
  object; two pointers are equal exactly when they hold the same address. The objects
  live in an explicit store, a list indexed by address, so that every allocation gives
  an address that was not in use before.

  \<^verbatim>\<open>src/balancer.go\<close> holds two revisions of the same file. Revision 2 names the
  read list \<^verbatim>\<open>replicas\<close>, revision 1 names it \<^verbatim>\<open>slaves\<close>; the struct is otherwise
  the same, and one record serves for both. Functions of revision 2 keep the source's
  name; functions of revision 1 whose body differs carry the suffix \<open>_r1\<close>.
\<close>

datatype DbMap_ptr = nil | Ref nat

datatype error = Error string

datatype panic = NilDereference | SliceBoundsOutOfRange | IndexOutOfRange | IntegerDivideByZero

record sql_DB =
  driverName :: string
  dataSourceName :: string

record 'd gorp_DbMap =
  Db :: sql_DB
  Dialect :: 'd

type_synonym 'd heap = "'d gorp_DbMap list"

definition new :: "'d heap \<Rightarrow> 'd gorp_DbMap \<Rightarrow> DbMap_ptr \<times> 'd heap" where
  "new h obj = (Ref (length h), h @ [obj])"

text \<open>
  The struct \<^verbatim>\<open>Balancer\<close>. The embedded \<^verbatim>\<open>*gorp.DbMap\<close> is the master. The mutex
  \<^verbatim>\<open>mu\<close> has no counterpart: the model is sequential, one call at a time.
\<close>

record Balancer =
  DbMap :: DbMap_ptr
  replicas :: "DbMap_ptr list"
  count :: "64 word"
  masterCanRead :: bool

text \<open>The value of \<^verbatim>\<open>&Balancer{}\<close>: every field at its zero value.\<close>

definition Balancer_zero :: Balancer where
  "Balancer_zero = \<lparr>DbMap = nil, replicas = [], count = 0, masterCanRead = False\<rparr>"

section \<open>Construction\<close>

text \<open>
  \<^verbatim>\<open>strings.Split(s, sep)\<close> of the Go standard library, for a separator of one
  character: the substrings between the separators, so that a string with \<open>n\<close>
  separators gives \<open>n + 1\<close> substrings, and the empty string gives one empty substring.
\<close>

fun strings_Split :: "string \<Rightarrow> char \<Rightarrow> string list" where
  "strings_Split [] sep = [[]]"
| "strings_Split (x # xs) sep =
     (if x = sep then [] # strings_Split xs sep
      else (case strings_Split xs sep of
              [] \<Rightarrow> [[x]]
            | y # ys \<Rightarrow> (x # y) # ys))"

text \<open>
  \<^verbatim>\<open>sql.Open\<close> belongs to \<^verbatim>\<open>database/sql\<close>; whether it accepts a driver name and a
  data source name is a parameter \<open>sql_Open\<close> of the model (\<open>None\<close>: it returned a
  handle and no error). The loop \<^verbatim>\<open>for i, c := range conns\<close> is a recursion on the
  rest of \<open>conns\<close> that carries the index \<open>i\<close>.
\<close>

fun NewBalancer_loop_r1 ::
  "(string \<Rightarrow> string \<Rightarrow> error option) \<Rightarrow> string \<Rightarrow> 'd \<Rightarrow> nat \<Rightarrow> string list \<Rightarrow>
   Balancer \<Rightarrow> 'd heap \<Rightarrow> error + (Balancer \<times> 'd heap)" where
  "NewBalancer_loop_r1 sql_Open drv dialect i [] b h = Inr (b, h)"
| "NewBalancer_loop_r1 sql_Open drv dialect i (c # cs) b h =
     (case sql_Open drv c of
        Some err \<Rightarrow> Inl err
      | None \<Rightarrow>
          (case new h \<lparr>Db = \<lparr>driverName = drv, dataSourceName = c\<rparr>, Dialect = dialect\<rparr> of
             (mapper, h') \<Rightarrow>
               if i = 0
               then NewBalancer_loop_r1 sql_Open drv dialect (Suc i) cs (b\<lparr>DbMap := mapper\<rparr>) h'
               else NewBalancer_loop_r1 sql_Open drv dialect (Suc i) cs
                      (b\<lparr>replicas := replicas b @ [mapper]\<rparr>) h'))"

definition NewBalancer_r1 ::
  "(string \<Rightarrow> string \<Rightarrow> error option) \<Rightarrow> string \<Rightarrow> 'd \<Rightarrow> string \<Rightarrow> 'd heap \<Rightarrow>
   error + (Balancer \<times> 'd heap)" where
  "NewBalancer_r1 sql_Open drv dialect sources h =
     (let conns = strings_Split sources CHR '';'' in
      if length conns = 0 then Inl (Error ''empty servers list'')
      else
        (case NewBalancer_loop_r1 sql_Open drv dialect 0 conns Balancer_zero h of
           Inl err \<Rightarrow> Inl err
         | Inr (b, h') \<Rightarrow>
             if length (replicas b) = 0
             then Inr (b\<lparr>replicas := replicas b @ [DbMap b], masterCanRead := True\<rparr>, h')
             else Inr (b, h')))"

text \<open>Revision 2 adds the \<^verbatim>\<open>continue\<close> on an empty segment; the index still advances.\<close>

fun NewBalancer_loop ::
  "(string \<Rightarrow> string \<Rightarrow> error option) \<Rightarrow> string \<Rightarrow> 'd \<Rightarrow> nat \<Rightarrow> string list \<Rightarrow>
   Balancer \<Rightarrow> 'd heap \<Rightarrow> error + (Balancer \<times> 'd heap)" where
  "NewBalancer_loop sql_Open drv dialect i [] b h = Inr (b, h)"
| "NewBalancer_loop sql_Open drv dialect i (c # cs) b h =
     (if length c = 0 then NewBalancer_loop sql_Open drv dialect (Suc i) cs b h
      else
        (case sql_Open drv c of
           Some err \<Rightarrow> Inl err
         | None \<Rightarrow>
             (case new h \<lparr>Db = \<lparr>driverName = drv, dataSourceName = c\<rparr>, Dialect = dialect\<rparr> of
                (mapper, h') \<Rightarrow>
                  if i = 0
                  then NewBalancer_loop sql_Open drv dialect (Suc i) cs (b\<lparr>DbMap := mapper\<rparr>) h'
                  else NewBalancer_loop sql_Open drv dialect (Suc i) cs
                         (b\<lparr>replicas := replicas b @ [mapper]\<rparr>) h')))"

definition NewBalancer ::
  "(string \<Rightarrow> string \<Rightarrow> error option) \<Rightarrow> string \<Rightarrow> 'd \<Rightarrow> string \<Rightarrow> 'd heap \<Rightarrow>
   error + (Balancer \<times> 'd heap)" where
  "NewBalancer sql_Open drv dialect sources h =
     (let conns = strings_Split sources CHR '';'' in
      if length conns = 0 then Inl (Error ''empty servers list'')
      else
        (case NewBalancer_loop sql_Open drv dialect 0 conns Balancer_zero h of
           Inl err \<Rightarrow> Inl err
         | Inr (b, h') \<Rightarrow>
             if length (replicas b) = 0
             then Inr (b\<lparr>replicas := replicas b @ [DbMap b], masterCanRead := True\<rparr>, h')
             else Inr (b, h')))"

section \<open>Reconfiguration\<close>

text \<open>
  Revision 1. The slice expression \<^verbatim>\<open>b.slaves[:len(b.slaves)-2]\<close> panics when the
  upper bound is negative; otherwise it keeps the first \<open>len - 2\<close> elements.
\<close>

definition MasterCanRead_r1 :: "bool \<Rightarrow> Balancer \<Rightarrow> panic + Balancer" where
  "MasterCanRead_r1 read b =
     (case (if masterCanRead b \<and> read = False
            then (if int (length (replicas b)) - 2 < 0 then Inl SliceBoundsOutOfRange
                  else Inr (b\<lparr>replicas := take (length (replicas b) - 2) (replicas b)\<rparr>))
            else Inr b) of
        Inl p \<Rightarrow> Inl p
      | Inr b1 \<Rightarrow>
          (let b2 = (if \<not> masterCanRead b1 \<and> read = True
                     then b1\<lparr>replicas := replicas b1 @ [DbMap b1]\<rparr>
                     else b1)
           in Inr (b2\<lparr>masterCanRead := read\<rparr>)))"

text \<open>
  Revision 2. No statement of the body can panic, so the function returns the new
  state directly. The inner loop appends to a fresh slice every element that is not
  the master pointer.
\<close>

definition MasterCanRead :: "bool \<Rightarrow> Balancer \<Rightarrow> Balancer" where
  "MasterCanRead read b =
     (let b1 = (if read = True \<and> masterCanRead b = False
                then b\<lparr>replicas := replicas b @ [DbMap b], masterCanRead := read\<rparr>
                else b)
      in if read = False \<and> masterCanRead b1 = True \<and> length (replicas b1) > 1
         then b1\<lparr>replicas := filter (\<lambda>db. db \<noteq> DbMap b1) (replicas b1), masterCanRead := read\<rparr>
         else b1)"

section \<open>Write resolution and read selection\<close>

definition Master :: "Balancer \<Rightarrow> DbMap_ptr" where
  "Master b = DbMap b"

text \<open>
  \<^verbatim>\<open>atomic.AddUint64(&b.count, 1)\<close> adds one modulo \<open>2 ^ 64\<close> and returns the new
  value; the remainder is taken in \<^verbatim>\<open>uint64\<close>, and a divisor of zero panics. The
  index expression \<^verbatim>\<open>b.replicas[i]\<close> panics when \<open>i\<close> is out of range.
\<close>

definition replica :: "Balancer \<Rightarrow> panic + (nat \<times> Balancer)" where
  "replica b =
     (if length (replicas b) = 1 then Inr (0, b)
      else
        (let c = count b + 1;
             n = (word_of_nat (length (replicas b)) :: 64 word)
         in if n = 0 then Inl IntegerDivideByZero
            else Inr (unat (c mod n), b\<lparr>count := c\<rparr>)))"

definition Replica :: "Balancer \<Rightarrow> panic + (DbMap_ptr \<times> Balancer)" where
  "Replica b =
     (case replica b of
        Inl p \<Rightarrow> Inl p
      | Inr (i, b') \<Rightarrow>
          if i < length (replicas b') then Inr (replicas b' ! i, b') else Inl IndexOutOfRange)"

text \<open>Revision 1 has the same two functions under the names \<^verbatim>\<open>slave\<close> and \<^verbatim>\<open>Slave\<close>.\<close>

definition slave :: "Balancer \<Rightarrow> panic + (nat \<times> Balancer)" where
  "slave b =
     (if length (replicas b) = 1 then Inr (0, b)
      else
        (let c = count b + 1;
             n = (word_of_nat (length (replicas b)) :: 64 word)
         in if n = 0 then Inl IntegerDivideByZero
            else Inr (unat (c mod n), b\<lparr>count := c\<rparr>)))"

definition Slave :: "Balancer \<Rightarrow> panic + (DbMap_ptr \<times> Balancer)" where
  "Slave b =
     (case slave b of
        Inl p \<Rightarrow> Inl p
      | Inr (i, b') \<Rightarrow>
          if i < length (replicas b') then Inr (replicas b' ! i, b') else Inl IndexOutOfRange)"

text \<open>\<open>n\<close> calls in a row from one thread, with the handles they return, in order.\<close>

fun Replica_times :: "nat \<Rightarrow> Balancer \<Rightarrow> panic + (DbMap_ptr list \<times> Balancer)" where
  "Replica_times 0 b = Inr ([], b)"
| "Replica_times (Suc n) b =
     (case Replica b of
        Inl p \<Rightarrow> Inl p
      | Inr (r, b') \<Rightarrow>
          (case Replica_times n b' of
             Inl p \<Rightarrow> Inl p
           | Inr (rs, b'') \<Rightarrow> Inr (r # rs, b'')))"

section \<open>Administrative fan-out\<close>

definition GetAllDbs :: "Balancer \<Rightarrow> DbMap_ptr list" where
  "GetAllDbs b = ([] @ [DbMap b]) @ replicas b"

text \<open>
  The connection handles are external: what \<^verbatim>\<open>Ping\<close>, \<^verbatim>\<open>Close\<close> and \<^verbatim>\<open>Prepare\<close>
  return on the handle at an address is a parameter of the model (a function of the
  address, the same at every call), and every function returns the list of the calls
  it made on handles, in order. A method call through a \<^verbatim>\<open>nil\<close> handle panics.
\<close>

datatype call =
  Call_Ping nat
| Call_Close nat
| Call_SetMaxIdleConns nat int
| Call_SetMaxOpenConns nat int
| Call_SetConnMaxLifetime nat int
| Call_Prepare nat string

text \<open>The loop \<^verbatim>\<open>for _, db := range dbs { db.Db.F(n) }\<close> of the three setters.\<close>

fun range_dbs :: "(nat \<Rightarrow> call) \<Rightarrow> DbMap_ptr list \<Rightarrow> call list \<Rightarrow> panic + call list" where
  "range_dbs f [] tr = Inr tr"
| "range_dbs f (nil # dbs) tr = Inl NilDereference"
| "range_dbs f (Ref a # dbs) tr = range_dbs f dbs (tr @ [f a])"

definition SetMaxIdleConns :: "Balancer \<Rightarrow> int \<Rightarrow> panic + call list" where
  "SetMaxIdleConns b n = range_dbs (\<lambda>a. Call_SetMaxIdleConns a n) (GetAllDbs b) []"

definition SetMaxOpenConns :: "Balancer \<Rightarrow> int \<Rightarrow> panic + call list" where
  "SetMaxOpenConns b n = range_dbs (\<lambda>a. Call_SetMaxOpenConns a n) (GetAllDbs b) []"

definition SetConnMaxLifetime :: "Balancer \<Rightarrow> int \<Rightarrow> panic + call list" where
  "SetConnMaxLifetime b d = range_dbs (\<lambda>a. Call_SetConnMaxLifetime a d) (GetAllDbs b) []"

text \<open>
  Revision 1 of \<^verbatim>\<open>Ping\<close> and \<^verbatim>\<open>Close\<close>: the loop returns at the first error. The two
  bodies differ only in the method called, \<open>mk\<close>, and its results, \<open>res\<close>.
\<close>

fun first_error_loop ::
  "(nat \<Rightarrow> call) \<Rightarrow> (nat \<Rightarrow> error option) \<Rightarrow> DbMap_ptr list \<Rightarrow> call list \<Rightarrow>
   panic + (error option \<times> call list)" where
  "first_error_loop mk res [] tr = Inr (None, tr)"
| "first_error_loop mk res (nil # dbs) tr = Inl NilDereference"
| "first_error_loop mk res (Ref a # dbs) tr =
     (case res a of
        Some err \<Rightarrow> Inr (Some err, tr @ [mk a])
      | None \<Rightarrow> first_error_loop mk res dbs (tr @ [mk a]))"

definition Ping_r1 :: "(nat \<Rightarrow> error option) \<Rightarrow> Balancer \<Rightarrow> panic + (error option \<times> call list)" where
  "Ping_r1 ping b = first_error_loop Call_Ping ping (GetAllDbs b) []"

definition Close_r1 :: "(nat \<Rightarrow> error option) \<Rightarrow> Balancer \<Rightarrow> panic + (error option \<times> call list)" where
  "Close_r1 close b = first_error_loop Call_Close close (GetAllDbs b) []"

text \<open>
  Revision 2: the loop keeps the last error in \<^verbatim>\<open>err\<close> and goes on; \<^verbatim>\<open>err\<close> is
  returned after the loop.
\<close>

fun last_error_loop ::
  "(nat \<Rightarrow> call) \<Rightarrow> (nat \<Rightarrow> error option) \<Rightarrow> DbMap_ptr list \<Rightarrow> error option \<Rightarrow> call list \<Rightarrow>
   panic + (error option \<times> call list)" where
  "last_error_loop mk res [] err tr = Inr (err, tr)"
| "last_error_loop mk res (nil # dbs) err tr = Inl NilDereference"
| "last_error_loop mk res (Ref a # dbs) err tr =
     (case res a of
        Some innerErr \<Rightarrow> last_error_loop mk res dbs (Some innerErr) (tr @ [mk a])
      | None \<Rightarrow> last_error_loop mk res dbs err (tr @ [mk a]))"

definition Ping :: "(nat \<Rightarrow> error option) \<Rightarrow> Balancer \<Rightarrow> panic + (error option \<times> call list)" where
  "Ping ping b = last_error_loop Call_Ping ping (GetAllDbs b) None []"

definition Close :: "(nat \<Rightarrow> error option) \<Rightarrow> Balancer \<Rightarrow> panic + (error option \<times> call list)" where
  "Close close b = last_error_loop Call_Close close (GetAllDbs b) None []"

section \<open>Statement preparation\<close>

text \<open>
  The struct \<^verbatim>\<open>stmt\<close> is declared outside \<^verbatim>\<open>src/\<close>; its two fields are those of the
  literal \<^verbatim>\<open>&stmt{bl: b, stmts: stmts}\<close>. A \<^verbatim>\<open>*sql.Stmt\<close> is \<open>None\<close> when \<^verbatim>\<open>nil\<close>.
  The loop \<^verbatim>\<open>for i := range stmts\<close> is a recursion on the indices still to come.
\<close>

record 's stmt =
  bl :: Balancer
  stmts :: "'s option list"

fun Prepare_loop ::
  "(nat \<Rightarrow> string \<Rightarrow> error + 's) \<Rightarrow> string \<Rightarrow> DbMap_ptr list \<Rightarrow> nat list \<Rightarrow> 's option list \<Rightarrow>
   call list \<Rightarrow> panic + ((error + 's option list) \<times> call list)" where
  "Prepare_loop prepare query dbs [] sts tr = Inr (Inr sts, tr)"
| "Prepare_loop prepare query dbs (i # is) sts tr =
     (if \<not> i < length dbs then Inl IndexOutOfRange
      else
        (case dbs ! i of
           nil \<Rightarrow> Inl NilDereference
         | Ref a \<Rightarrow>
             (case prepare a query of
                Inl err \<Rightarrow> Inr (Inl err, tr @ [Call_Prepare a query])
              | Inr s \<Rightarrow>
                  Prepare_loop prepare query dbs is (sts[i := Some s])
                    (tr @ [Call_Prepare a query]))))"

definition Prepare ::
  "(nat \<Rightarrow> string \<Rightarrow> error + 's) \<Rightarrow> Balancer \<Rightarrow> string \<Rightarrow>
   panic + ((error + 's stmt) \<times> call list)" where
  "Prepare prepare b query =
     (let dbs = GetAllDbs b;
          sts = replicate (length dbs) None
      in case Prepare_loop prepare query dbs [0..<length sts] sts [] of
           Inl p \<Rightarrow> Inl p
         | Inr (Inl err, tr) \<Rightarrow> Inr (Inl err, tr)
         | Inr (Inr sts', tr) \<Rightarrow> Inr (Inr \<lparr>bl = b, stmts = sts'\<rparr>, tr))"

section \<open>Notions used in the properties\<close>

text \<open>
  None of the following is code of the package. \<open>addresses\<close> gives the addresses
  behind a list of handles, in order, and \<open>last_failure\<close> the error of the last
  address of a list whose call failed. \<open>topology_ok\<close> is the invariant of the
  topology: the read list is not empty, the flag says whether the master is in it, and
  the master is in it at most once. \<open>fresh_in\<close> says that the handles of a balancer
  were allocated in the store, that no read target is \<^verbatim>\<open>nil\<close>, and that the master
  is not a read target.
\<close>

fun addresses :: "DbMap_ptr list \<Rightarrow> nat list" where
  "addresses [] = []"
| "addresses (nil # ps) = addresses ps"
| "addresses (Ref a # ps) = a # addresses ps"

definition last_failure :: "(nat \<Rightarrow> error option) \<Rightarrow> nat list \<Rightarrow> error option" where
  "last_failure res as =
     (let fs = filter (\<lambda>a. res a \<noteq> None) as in if fs = [] then None else res (last fs))"

definition topology_ok :: "Balancer \<Rightarrow> bool" where
  "topology_ok b =
     (replicas b \<noteq> []
      \<and> masterCanRead b = (DbMap b \<in> set (replicas b))
      \<and> count_list (replicas b) (DbMap b) = (if masterCanRead b then 1 else 0))"

definition fresh_in :: "'d heap \<Rightarrow> Balancer \<Rightarrow> bool" where
  "fresh_in h b =
     (list_all (\<lambda>p. case p of nil \<Rightarrow> False | Ref a \<Rightarrow> a < length h) (replicas b)
      \<and> (case DbMap b of nil \<Rightarrow> True | Ref a \<Rightarrow> a < length h)
      \<and> DbMap b \<notin> set (replicas b))"

section \<open>Properties of the construction\<close>

lemma strings_Split_not_Nil: "strings_Split s sep \<noteq> []"
  by (induction s) (auto split: list.splits)

lemma strings_Split_length: "length (strings_Split s sep) = Suc (count_list s sep)"
  by (induction s) (auto split: list.splits simp: strings_Split_not_Nil)

lemma strings_Split_join: "concat (map (\<lambda>c. sep # c) (strings_Split s sep)) = sep # s"
  by (induction s) (auto split: list.splits)

text \<open>
  C4. The claim: for the empty data-source string, construction fails with a
  construction error and returns no partial topology. The code does not: the guard
  \<^verbatim>\<open>len(conns) == 0\<close> tests the result of \<^verbatim>\<open>strings.Split\<close>, which is never empty
  (\<open>strings_Split_not_Nil\<close>), so the error \<^verbatim>\<open>"empty servers list"\<close> is never returned.
  On the empty string revision 2 opens nothing and returns, with no error, a balancer
  whose master is \<^verbatim>\<open>nil\<close> and whose read list is \<^verbatim>\<open>[nil]\<close>, whatever \<^verbatim>\<open>sql.Open\<close> would
  answer; revision 1 opens a handle on the empty data source name and, when the driver
  accepts it, returns a balancer on that handle.
\<close>

theorem NewBalancer_empty_sources_no_error:
  "NewBalancer sql_Open drv dialect [] h =
     Inr (\<lparr>DbMap = nil, replicas = [nil], count = 0, masterCanRead = True\<rparr>, h)
   \<and> NewBalancer_r1 (\<lambda>d c. None) drv dialect [] h =
     Inr (\<lparr>DbMap = Ref (length h), replicas = [Ref (length h)], count = 0, masterCanRead = True\<rparr>,
          h @ [\<lparr>Db = \<lparr>driverName = drv, dataSourceName = []\<rparr>, Dialect = dialect\<rparr>])"
  by (simp add: NewBalancer_def NewBalancer_r1_def Balancer_zero_def new_def)

text \<open>
  Revision 2 on \<^verbatim>\<open>"A;;B"\<close>: the empty segment is skipped, the master is the handle
  opened on \<^verbatim>\<open>A\<close> and the read list is the handle opened on \<^verbatim>\<open>B\<close>. In general the
  handles revision 2 allocates are those of the non-empty segments, in order.
\<close>

lemma NewBalancer_skips_empty_segment:
  "sql_Open drv ''A'' = None \<Longrightarrow> sql_Open drv ''B'' = None \<Longrightarrow>
   NewBalancer sql_Open drv dialect ''A;;B'' h =
     Inr (\<lparr>DbMap = Ref (length h), replicas = [Ref (Suc (length h))], count = 0,
           masterCanRead = False\<rparr>,
          h @ [\<lparr>Db = \<lparr>driverName = drv, dataSourceName = ''A''\<rparr>, Dialect = dialect\<rparr>,
               \<lparr>Db = \<lparr>driverName = drv, dataSourceName = ''B''\<rparr>, Dialect = dialect\<rparr>])"
  by (simp add: NewBalancer_def Balancer_zero_def new_def)

lemma NewBalancer_loop_heap:
  "NewBalancer_loop sql_Open drv dialect i conns b h = Inr (b', h') \<Longrightarrow>
   h' = h @ map (\<lambda>c. \<lparr>Db = \<lparr>driverName = drv, dataSourceName = c\<rparr>, Dialect = dialect\<rparr>)
              (filter (\<lambda>c. c \<noteq> []) conns)"
  by (induction sql_Open drv dialect i conns b h rule: NewBalancer_loop.induct)
     (auto simp: new_def split: option.splits if_splits)

lemma NewBalancer_heap:
  assumes "NewBalancer sql_Open drv dialect sources h = Inr (b, h')"
  shows "h' = h @ map (\<lambda>c. \<lparr>Db = \<lparr>driverName = drv, dataSourceName = c\<rparr>, Dialect = dialect\<rparr>)
              (filter (\<lambda>c. c \<noteq> []) (strings_Split sources CHR '';''))"
  using assms
  by (auto simp: NewBalancer_def Let_def split: if_splits sum.splits dest: NewBalancer_loop_heap)

lemma NewBalancer_r1_empty_segment_rejected:
  "NewBalancer_r1 (\<lambda>d c. if c = [] then Some err else None) drv dialect ''A;;B'' h = Inl err"
  by (simp add: NewBalancer_r1_def Balancer_zero_def new_def)

text \<open>
  C6. The claim: constructing with \<^verbatim>\<open>"A;;B"\<close> yields master \<^verbatim>\<open>A\<close> and read list
  \<^verbatim>\<open>[B]\<close>; an empty segment is skipped without error and never becomes a handle.
  Revision 2 does so (\<open>NewBalancer_skips_empty_segment\<close>, \<open>NewBalancer_heap\<close>).
  Revision 1 has no test for an empty segment: with a driver that accepts every data
  source name it opens three handles, and the handle at address 1, opened on the empty
  name, is the first element of the read list. With a driver that rejects the empty
  name the construction fails (\<open>NewBalancer_r1_empty_segment_rejected\<close>).
\<close>

theorem NewBalancer_r1_empty_segment_opened:
  "NewBalancer_r1 (\<lambda>d c. None) drv dialect ''A;;B'' [] =
     Inr (\<lparr>DbMap = Ref 0, replicas = [Ref 1, Ref 2], count = 0, masterCanRead = False\<rparr>,
          [\<lparr>Db = \<lparr>driverName = drv, dataSourceName = ''A''\<rparr>, Dialect = dialect\<rparr>,
           \<lparr>Db = \<lparr>driverName = drv, dataSourceName = []\<rparr>, Dialect = dialect\<rparr>,
           \<lparr>Db = \<lparr>driverName = drv, dataSourceName = ''B''\<rparr>, Dialect = dialect\<rparr>])"
  by (simp add: NewBalancer_r1_def Balancer_zero_def new_def)

text \<open>
  Revision 1 never builds a \<^verbatim>\<open>nil\<close> handle: the first segment always becomes the
  master. (Revision 2 does when the first segment is empty.)
\<close>

lemma NewBalancer_loop_r1_no_nil:
  "NewBalancer_loop_r1 sql_Open drv dialect i conns b h = Inr (b', h') \<Longrightarrow>
   nil \<notin> set (replicas b) \<Longrightarrow> (i = 0 \<and> conns \<noteq> []) \<or> DbMap b \<noteq> nil \<Longrightarrow>
   nil \<notin> set (replicas b') \<and> DbMap b' \<noteq> nil"
  by (induction sql_Open drv dialect i conns b h rule: NewBalancer_loop_r1.induct)
     (auto simp: new_def split: option.splits if_splits)

lemma NewBalancer_r1_no_nil:
  assumes "NewBalancer_r1 sql_Open drv dialect sources h = Inr (b, h')"
  shows "nil \<notin> set (GetAllDbs b)"
proof -
  let ?conns = "strings_Split sources CHR '';''"
  obtain b0 where loop: "NewBalancer_loop_r1 sql_Open drv dialect 0 ?conns Balancer_zero h = Inr (b0, h')"
    and b: "b = (if length (replicas b0) = 0
                 then b0\<lparr>replicas := replicas b0 @ [DbMap b0], masterCanRead := True\<rparr> else b0)"
    using assms
    by (auto simp: NewBalancer_r1_def Let_def split: if_splits sum.splits)
  have "nil \<notin> set (replicas b0) \<and> DbMap b0 \<noteq> nil"
    using NewBalancer_loop_r1_no_nil [OF loop] by (simp add: Balancer_zero_def strings_Split_not_Nil)
  then show ?thesis
    by (auto simp: b GetAllDbs_def)
qed

text \<open>
  Revision 2 gives every handle a new address, so the master is never among the
  replicas it opens, and the balancer it returns satisfies the invariant.
\<close>

lemma fresh_in_new_master:
  "fresh_in h b \<Longrightarrow> replicas b = [] \<Longrightarrow> fresh_in (h @ [obj]) (b\<lparr>DbMap := Ref (length h)\<rparr>)"
  by (simp add: fresh_in_def)

lemma fresh_in_new_replica:
  "fresh_in h b \<Longrightarrow> fresh_in (h @ [obj]) (b\<lparr>replicas := replicas b @ [Ref (length h)]\<rparr>)"
  by (auto simp: fresh_in_def list_all_iff split: DbMap_ptr.splits)

lemma NewBalancer_loop_fresh:
  "NewBalancer_loop sql_Open drv dialect i conns b h = Inr (b', h') \<Longrightarrow>
   fresh_in h b \<Longrightarrow> 0 < i \<or> replicas b = [] \<Longrightarrow>
   fresh_in h' b' \<and> masterCanRead b' = masterCanRead b"
proof (induction sql_Open drv dialect i conns b h rule: NewBalancer_loop.induct)
  case (1 sql_Open drv dialect i b h)
  then show ?case by simp
next
  case (2 sql_Open drv dialect i c cs b h)
  show ?case
  proof (cases "length c = 0")
    case True
    then show ?thesis
      using 2 by simp
  next
    case False
    with "2.prems"(1) have op: "sql_Open drv c = None"
      by (auto split: option.splits)
    let ?obj = "\<lparr>Db = \<lparr>driverName = drv, dataSourceName = c\<rparr>, Dialect = dialect\<rparr>"
    show ?thesis
    proof (cases "i = 0")
      case True
      with "2.prems"(3) have e: "replicas b = []" by simp
      have "fresh_in (h @ [?obj]) (b\<lparr>DbMap := Ref (length h)\<rparr>)"
        using "2.prems"(2) e by (rule fresh_in_new_master)
      then show ?thesis
        using "2.IH"(2) [OF False op _ True, of "Ref (length h)" "h @ [?obj]"] "2.prems"(1) False op True
        by (simp add: new_def)
    next
      case nz: False
      have "fresh_in (h @ [?obj]) (b\<lparr>replicas := replicas b @ [Ref (length h)]\<rparr>)"
        using "2.prems"(2) by (rule fresh_in_new_replica)
      then show ?thesis
        using "2.IH"(3) [OF False op _ nz, of "Ref (length h)" "h @ [?obj]"] "2.prems"(1) False op nz
        by (simp add: new_def)
    qed
  qed
qed

lemma NewBalancer_topology_ok:
  assumes "NewBalancer sql_Open drv dialect sources h = Inr (b, h')"
  shows "topology_ok b"
proof -
  let ?conns = "strings_Split sources CHR '';''"
  obtain b0 where loop: "NewBalancer_loop sql_Open drv dialect 0 ?conns Balancer_zero h = Inr (b0, h')"
    and b: "b = (if length (replicas b0) = 0
                 then b0\<lparr>replicas := replicas b0 @ [DbMap b0], masterCanRead := True\<rparr> else b0)"
    using assms
    by (auto simp: NewBalancer_def Let_def split: if_splits sum.splits)
  have "fresh_in h Balancer_zero"
    by (simp add: fresh_in_def Balancer_zero_def)
  then have "fresh_in h' b0 \<and> masterCanRead b0 = masterCanRead Balancer_zero"
    using loop by (intro NewBalancer_loop_fresh [OF loop]) (simp_all add: Balancer_zero_def)
  then have "DbMap b0 \<notin> set (replicas b0)" and "masterCanRead b0 = False"
    by (simp_all add: fresh_in_def Balancer_zero_def)
  then show ?thesis
    by (simp add: b topology_ok_def count_list_0_iff)
qed

section \<open>Properties of the reconfiguration\<close>

text \<open>
  Revision 2: with one read target the demotion changes nothing; no call drops or adds
  a handle other than the master, or touches the master or the counter; and the read
  list stays non-empty when it holds one element or a handle other than the master.
\<close>

lemma MasterCanRead_only_master_noop:
  "length (replicas b) = 1 \<Longrightarrow> MasterCanRead False b = b"
  by (simp add: MasterCanRead_def)

lemma MasterCanRead_keeps_replicas:
  "filter (\<lambda>db. db \<noteq> DbMap b) (replicas (MasterCanRead read b)) =
   filter (\<lambda>db. db \<noteq> DbMap b) (replicas b)
   \<and> DbMap (MasterCanRead read b) = DbMap b \<and> count (MasterCanRead read b) = count b"
  by (simp add: MasterCanRead_def Let_def)

lemma MasterCanRead_not_empty:
  "length (replicas b) = 1 \<or> (\<exists>r \<in> set (replicas b). r \<noteq> DbMap b) \<Longrightarrow>
   replicas (MasterCanRead read b) \<noteq> []"
  by (auto simp: MasterCanRead_def Let_def filter_empty_conv)

lemma length_filter_neq_count_list:
  "length (filter (\<lambda>y. y \<noteq> x) xs) + count_list xs x = length xs"
  by (induction xs) simp_all

lemma MasterCanRead_topology_ok:
  assumes "topology_ok b"
  shows "topology_ok (MasterCanRead read b)"
proof (cases "read = masterCanRead b \<or> (\<not> read \<and> length (replicas b) \<le> 1)")
  case True
  then have "MasterCanRead read b = b"
    by (auto simp: MasterCanRead_def)
  with assms show ?thesis by simp
next
  case False
  show ?thesis
  proof (cases read)
    case True
    with False assms show ?thesis
      by (simp add: MasterCanRead_def topology_ok_def count_list_0_iff)
  next
    case nr: False
    with False have flag: "masterCanRead b" and len: "1 < length (replicas b)"
      by auto
    from assms flag have one: "count_list (replicas b) (DbMap b) = 1"
      by (simp add: topology_ok_def)
    have "length (filter (\<lambda>db. db \<noteq> DbMap b) (replicas b)) + count_list (replicas b) (DbMap b)
            = length (replicas b)"
      by (rule length_filter_neq_count_list)
    with one len have "filter (\<lambda>db. db \<noteq> DbMap b) (replicas b) \<noteq> []"
      by auto
    then show ?thesis
      using nr flag len
      by (simp add: MasterCanRead_def topology_ok_def count_list_0_iff)
  qed
qed

lemma MasterCanRead_no_replica_noop:
  assumes "topology_ok b" and "filter (\<lambda>db. db \<noteq> DbMap b) (replicas b) = []"
  shows "MasterCanRead False b = b"
proof -
  have "count_list (replicas b) (DbMap b) = length (replicas b)"
    using length_filter_neq_count_list [of "DbMap b" "replicas b"] assms(2) by simp
  moreover have "count_list (replicas b) (DbMap b) \<le> 1"
    using assms(1) by (simp add: topology_ok_def)
  ultimately have "length (replicas b) \<le> 1"
    by simp
  then show ?thesis
    by (simp add: MasterCanRead_def)
qed

lemma MasterCanRead_r1_no_nil:
  "MasterCanRead_r1 read b = Inr b' \<Longrightarrow> nil \<notin> set (GetAllDbs b) \<Longrightarrow> nil \<notin> set (GetAllDbs b')"
  by (auto simp: MasterCanRead_r1_def GetAllDbs_def Let_def split: if_splits dest: in_set_takeD)

lemma MasterCanRead_r1_drops_replica:
  "MasterCanRead_r1 False
     \<lparr>DbMap = Ref 0, replicas = [Ref 1, Ref 2, Ref 0], count = c, masterCanRead = True\<rparr>
   = Inr \<lparr>DbMap = Ref 0, replicas = [Ref 1], count = c, masterCanRead = False\<rparr>"
  by (simp add: MasterCanRead_r1_def)

text \<open>
  C1. The claim: \<^verbatim>\<open>MasterCanRead(false)\<close>, when the master is the only read target,
  leaves the state unchanged, never leaves the read list empty, never panics and never
  drops a genuine replica. Revision 2 does so (\<open>MasterCanRead_no_replica_noop\<close>,
  \<open>MasterCanRead_topology_ok\<close>, \<open>MasterCanRead_keeps_replicas\<close>). Revision 1
  slices the read list to \<^verbatim>\<open>len - 2\<close>: on the balancer built from the single source
  \<^verbatim>\<open>"A"\<close>, whose read list is the master alone, the bound is \<open>-1\<close> and the call panics;
  on a longer list it drops the master and the replica before it
  (\<open>MasterCanRead_r1_drops_replica\<close>).
\<close>

theorem MasterCanRead_r1_only_master_panics:
  "NewBalancer_r1 (\<lambda>d c. None) drv dialect ''A'' [] =
     Inr (\<lparr>DbMap = Ref 0, replicas = [Ref 0], count = 0, masterCanRead = True\<rparr>,
          [\<lparr>Db = \<lparr>driverName = drv, dataSourceName = ''A''\<rparr>, Dialect = dialect\<rparr>])
   \<and> MasterCanRead_r1 False \<lparr>DbMap = Ref 0, replicas = [Ref 0], count = 0, masterCanRead = True\<rparr>
       = Inl SliceBoundsOutOfRange"
  by (simp add: NewBalancer_r1_def Balancer_zero_def new_def MasterCanRead_r1_def)

text \<open>
  C8. The claim: on a topology in which the master is not a read target,
  \<^verbatim>\<open>MasterCanRead(true)\<close> appends the master to the read list exactly once, and a
  second \<^verbatim>\<open>MasterCanRead(true)\<close> leaves the list and the flag unchanged. A topology
  is a state that satisfies the invariant, so the flag is false when the master is not
  in the list; the code decides by the flag. Both revisions agree here.
\<close>

theorem MasterCanRead_true_appends_once:
  assumes "topology_ok b" and "DbMap b \<notin> set (replicas b)"
  shows "MasterCanRead True b = b\<lparr>replicas := replicas b @ [DbMap b], masterCanRead := True\<rparr>
       \<and> count_list (replicas (MasterCanRead True b)) (DbMap b) = 1
       \<and> MasterCanRead True (MasterCanRead True b) = MasterCanRead True b
       \<and> MasterCanRead_r1 True b = Inr (MasterCanRead True b)
       \<and> MasterCanRead_r1 True (MasterCanRead True b) = Inr (MasterCanRead True b)"
proof -
  have "masterCanRead b = False"
    using assms by (simp add: topology_ok_def)
  then show ?thesis
    using assms(2) by (simp add: MasterCanRead_def MasterCanRead_r1_def count_list_0_iff)
qed

theorem MasterCanRead_true_appends_once_witness:
  "topology_ok \<lparr>DbMap = Ref 0, replicas = [Ref 1, Ref 2], count = 5, masterCanRead = False\<rparr>
   \<and> DbMap \<lparr>DbMap = Ref 0, replicas = [Ref 1, Ref 2], count = 5, masterCanRead = False\<rparr>
       \<notin> set (replicas \<lparr>DbMap = Ref 0, replicas = [Ref 1, Ref 2], count = 5, masterCanRead = False\<rparr>)
   \<and> MasterCanRead True \<lparr>DbMap = Ref 0, replicas = [Ref 1, Ref 2], count = 5, masterCanRead = False\<rparr>
     = \<lparr>DbMap = Ref 0, replicas = [Ref 1, Ref 2, Ref 0], count = 5, masterCanRead = True\<rparr>
   \<and> MasterCanRead True
        (MasterCanRead True \<lparr>DbMap = Ref 0, replicas = [Ref 1, Ref 2], count = 5, masterCanRead = False\<rparr>)
     = MasterCanRead True \<lparr>DbMap = Ref 0, replicas = [Ref 1, Ref 2], count = 5, masterCanRead = False\<rparr>"
proof -
  let ?B = "\<lparr>DbMap = Ref 0, replicas = [Ref 1, Ref 2], count = 5, masterCanRead = False\<rparr>"
  have h1: "topology_ok ?B"
    by (simp add: topology_ok_def)
  have h2: "DbMap ?B \<notin> set (replicas ?B)"
    by simp
  note t = MasterCanRead_true_appends_once [OF h1 h2]
  have c1: "MasterCanRead True ?B
              = \<lparr>DbMap = Ref 0, replicas = [Ref 1, Ref 2, Ref 0], count = 5, masterCanRead = True\<rparr>"
    using t [THEN conjunct1] by simp
  show ?thesis
    using h1 h2 c1 t by blast
qed

section \<open>Properties of the read selection\<close>

text \<open>
  A Go slice holds fewer than \<open>2 ^ 63\<close> elements, so the conversion
  \<^verbatim>\<open>uint64(len(b.replicas))\<close> is exact; the lemmas assume the length below \<open>2 ^ 64\<close>.
\<close>

lemma word_of_nat_length_neq_0:
  assumes "0 < k" "k < 2 ^ 64"
  shows "(word_of_nat k :: 64 word) \<noteq> 0"
proof
  assume "(word_of_nat k :: 64 word) = 0"
  then have "unat (word_of_nat k :: 64 word) = 0" by simp
  with assms show False by (simp add: unat_of_nat)
qed

lemma unat_mod_length:
  fixes c :: "64 word"
  assumes "0 < k" "k < 2 ^ 64"
  shows "unat (c mod word_of_nat k) = unat c mod k"
  using assms by (simp add: unat_mod_distrib unat_of_nat)

lemma slave_eq_replica: "slave b = replica b" and Slave_eq_Replica: "Slave b = Replica b"
  by (simp_all add: slave_def replica_def Slave_def Replica_def)

lemma replica_value:
  assumes "1 < length (replicas b)" "length (replicas b) < 2 ^ 64"
  shows "replica b = Inr (unat (count b + 1) mod length (replicas b), b\<lparr>count := count b + 1\<rparr>)"
proof -
  have pos: "0 < length (replicas b)"
    using assms(1) by linarith
  show ?thesis
    using assms(1) unat_mod_length [OF pos assms(2)] word_of_nat_length_neq_0 [OF pos assms(2)]
    by (simp add: replica_def Let_def)
qed

lemma Replica_value:
  assumes "1 < length (replicas b)" "length (replicas b) < 2 ^ 64"
  shows "Replica b = Inr (replicas b ! (unat (count b + 1) mod length (replicas b)),
                          b\<lparr>count := count b + 1\<rparr>)"
proof -
  have "unat (count b + 1) mod length (replicas b) < length (replicas b)"
    using assms(1) by (intro mod_less_divisor) linarith
  then show ?thesis
    using assms by (simp add: Replica_def replica_value)
qed

lemma Replica_single:
  assumes "length (replicas b) = 1"
  shows "Replica b = Inr (replicas b ! 0, b)"
  using assms by (cases "replicas b") (simp_all add: Replica_def replica_def)

lemma Replica_topology_ok:
  "Replica b = Inr (r, b') \<Longrightarrow> topology_ok b \<Longrightarrow> topology_ok b'"
  by (auto simp: Replica_def replica_def Let_def topology_ok_def split: if_splits sum.splits)

text \<open>
  In revision 1 the read list can become empty: after \<^verbatim>\<open>MasterCanRead(true)\<close> on one
  replica, \<^verbatim>\<open>MasterCanRead(false)\<close> slices both elements away, and \<^verbatim>\<open>Slave\<close> on the
  empty list divides by zero. Revision 2 keeps the list non-empty
  (\<open>MasterCanRead_topology_ok\<close>).
\<close>

lemma MasterCanRead_r1_empties_list:
  "MasterCanRead_r1 False
     \<lparr>DbMap = Ref 0, replicas = [Ref 1, Ref 0], count = c, masterCanRead = True\<rparr>
     = Inr \<lparr>DbMap = Ref 0, replicas = [], count = c, masterCanRead = False\<rparr>
   \<and> Slave \<lparr>DbMap = Ref 0, replicas = [], count = c, masterCanRead = False\<rparr>
     = Inl IntegerDivideByZero"
  by (simp add: MasterCanRead_r1_def Slave_def slave_def)

text \<open>
  C7. The claim: on a non-empty read list, every call of \<^verbatim>\<open>Slave\<close>/\<^verbatim>\<open>Replica\<close>
  computes an index strictly below the length of the list, does not panic, and returns
  an element of the list. (One call at a time: the model has no concurrent
  reconfiguration.) The read list itself is left as it was. The hypothesis is the
  non-empty read list the claim names.
\<close>

theorem Replica_in_range:
  assumes "replicas b \<noteq> []" "length (replicas b) < 2 ^ 64"
  shows "\<exists>i b'. replica b = Inr (i, b') \<and> i < length (replicas b) \<and> replicas b' = replicas b
           \<and> Replica b = Inr (replicas b ! i, b') \<and> replicas b ! i \<in> set (replicas b)
           \<and> slave b = Inr (i, b') \<and> Slave b = Inr (replicas b ! i, b')"
proof (cases "length (replicas b) = 1")
  case True
  then show ?thesis
    using assms(1)
    by (cases "replicas b") (simp_all add: slave_eq_replica Slave_eq_Replica Replica_def replica_def)
next
  case False
  with assms have k: "1 < length (replicas b)"
    by (cases "replicas b") auto
  have "unat (count b + 1) mod length (replicas b) < length (replicas b)"
    using k by (intro mod_less_divisor) linarith
  then show ?thesis
    using k assms(2)
    by (simp add: slave_eq_replica Slave_eq_Replica Replica_value replica_value)
qed

theorem Replica_in_range_witness:
  "replicas \<lparr>DbMap = Ref 0, replicas = [Ref 1, Ref 2, Ref 3], count = 7, masterCanRead = False\<rparr> \<noteq> []
   \<and> (\<exists>i b'. replica \<lparr>DbMap = Ref 0, replicas = [Ref 1, Ref 2, Ref 3], count = 7, masterCanRead = False\<rparr> = Inr (i, b')
        \<and> i < 3
        \<and> Replica \<lparr>DbMap = Ref 0, replicas = [Ref 1, Ref 2, Ref 3], count = 7, masterCanRead = False\<rparr>
            = Inr ([Ref 1, Ref 2, Ref 3] ! i, b'))"
  using Replica_in_range [of "\<lparr>DbMap = Ref 0, replicas = [Ref 1, Ref 2, Ref 3], count = 7, masterCanRead = False\<rparr>"]
  by auto

lemma NewBalancer_loop_count:
  "NewBalancer_loop sql_Open drv dialect i conns b h = Inr (b', h') \<Longrightarrow> count b' = count b"
  by (induction sql_Open drv dialect i conns b h rule: NewBalancer_loop.induct)
     (auto simp: new_def split: option.splits if_splits)

lemma NewBalancer_count:
  "NewBalancer sql_Open drv dialect sources h = Inr (b, h') \<Longrightarrow> count b = 0"
  by (auto simp: NewBalancer_def Let_def split: if_splits sum.splits
           dest!: NewBalancer_loop_count simp: Balancer_zero_def)

lemma NewBalancer_loop_r1_count:
  "NewBalancer_loop_r1 sql_Open drv dialect i conns b h = Inr (b', h') \<Longrightarrow> count b' = count b"
  by (induction sql_Open drv dialect i conns b h rule: NewBalancer_loop_r1.induct)
     (auto simp: new_def split: option.splits if_splits)

lemma NewBalancer_r1_count:
  "NewBalancer_r1 sql_Open drv dialect sources h = Inr (b, h') \<Longrightarrow> count b = 0"
  by (auto simp: NewBalancer_r1_def Let_def split: if_splits sum.splits
           dest!: NewBalancer_loop_r1_count simp: Balancer_zero_def)

lemma first_Slave_is_second_target:
  assumes "NewBalancer_r1 sql_Open drv dialect sources h = Inr (b, h')"
    and "1 < length (replicas b)" and "length (replicas b) < 2 ^ 64"
  shows "Slave b = Inr (replicas b ! 1, b\<lparr>count := 1\<rparr>)"
  using assms(2,3) NewBalancer_r1_count [OF assms(1)]
  by (simp add: Slave_eq_Replica Replica_value)

lemma fold_MasterCanRead_count: "count (fold MasterCanRead reads b) = count b"
  by (induction reads arbitrary: b) (simp_all add: MasterCanRead_keeps_replicas)

text \<open>
  C9. The claim: on a read list of length \<open>k > 1\<close>, the first read selection after
  construction returns \<^verbatim>\<open>replicas[1]\<close>, not \<^verbatim>\<open>replicas[0]\<close>: the counter starts at
  zero and is incremented before the remainder is taken. Reconfigurations between the
  construction and the first selection (the list \<open>reads\<close> of the arguments of
  \<^verbatim>\<open>MasterCanRead\<close>, possibly empty) do not touch the counter. Revision 1 behaves the
  same right after the construction (\<open>first_Slave_is_second_target\<close>).
\<close>

theorem first_Replica_is_second_target:
  assumes "NewBalancer sql_Open drv dialect sources h = Inr (b0, h')"
    and "b = fold MasterCanRead reads b0"
    and "1 < length (replicas b)" and "length (replicas b) < 2 ^ 64"
  shows "Replica b = Inr (replicas b ! 1, b\<lparr>count := 1\<rparr>)"
proof -
  have "count b = 0"
    using NewBalancer_count [OF assms(1)] by (simp add: assms(2) fold_MasterCanRead_count)
  then show ?thesis
    using assms(3,4) by (simp add: Replica_value)
qed

theorem first_Replica_is_second_target_witness:
  "NewBalancer (\<lambda>d c. None) ''mysql'' () ''A;B;C'' [] =
     Inr (\<lparr>DbMap = Ref 0, replicas = [Ref 1, Ref 2], count = 0, masterCanRead = False\<rparr>,
          [\<lparr>Db = \<lparr>driverName = ''mysql'', dataSourceName = ''A''\<rparr>, Dialect = ()\<rparr>,
           \<lparr>Db = \<lparr>driverName = ''mysql'', dataSourceName = ''B''\<rparr>, Dialect = ()\<rparr>,
           \<lparr>Db = \<lparr>driverName = ''mysql'', dataSourceName = ''C''\<rparr>, Dialect = ()\<rparr>])
   \<and> Replica \<lparr>DbMap = Ref 0, replicas = [Ref 1, Ref 2], count = 0, masterCanRead = False\<rparr>
     = Inr (Ref 2, \<lparr>DbMap = Ref 0, replicas = [Ref 1, Ref 2], count = 1, masterCanRead = False\<rparr>)
   \<and> Replica \<lparr>DbMap = Ref 0, replicas = [Ref 1, Ref 2, Ref 0], count = 0, masterCanRead = True\<rparr>
     = Inr (Ref 2, \<lparr>DbMap = Ref 0, replicas = [Ref 1, Ref 2, Ref 0], count = 1, masterCanRead = True\<rparr>)"
proof -
  let ?B = "\<lparr>DbMap = Ref 0, replicas = [Ref 1, Ref 2], count = 0, masterCanRead = False\<rparr>"
  have nb: "NewBalancer (\<lambda>d c. None) ''mysql'' () ''A;B;C'' [] =
     Inr (?B,
          [\<lparr>Db = \<lparr>driverName = ''mysql'', dataSourceName = ''A''\<rparr>, Dialect = ()\<rparr>,
           \<lparr>Db = \<lparr>driverName = ''mysql'', dataSourceName = ''B''\<rparr>, Dialect = ()\<rparr>,
           \<lparr>Db = \<lparr>driverName = ''mysql'', dataSourceName = ''C''\<rparr>, Dialect = ()\<rparr>])"
    by (simp add: NewBalancer_def Balancer_zero_def new_def)
  have f0: "?B = fold MasterCanRead [] ?B"
    by simp
  have f1: "\<lparr>DbMap = Ref 0, replicas = [Ref 1, Ref 2, Ref 0], count = 0, masterCanRead = True\<rparr>
              = fold MasterCanRead [True] ?B"
    by (simp add: MasterCanRead_def)
  have c0: "Replica ?B = Inr (Ref 2, ?B\<lparr>count := 1\<rparr>)"
    using first_Replica_is_second_target [OF nb f0] by simp
  have c1: "Replica \<lparr>DbMap = Ref 0, replicas = [Ref 1, Ref 2, Ref 0], count = 0, masterCanRead = True\<rparr>
              = Inr (Ref 2, \<lparr>DbMap = Ref 0, replicas = [Ref 1, Ref 2, Ref 0], count = 1, masterCanRead = True\<rparr>)"
    using first_Replica_is_second_target [OF nb f1] by simp
  show ?thesis
    using nb c0 c1 by simp
qed

lemma Replica_times_value:
  assumes "1 < length (replicas b)" "length (replicas b) < 2 ^ 64"
    and "unat (count b) + n < 2 ^ 64"
  shows "Replica_times n b =
           Inr (map (\<lambda>j. replicas b ! ((unat (count b) + 1 + j) mod length (replicas b))) [0..<n],
                b\<lparr>count := count b + word_of_nat n\<rparr>)"
  using assms
proof (induction n arbitrary: b)
  case 0
  then show ?case by simp
next
  case (Suc n)
  let ?b' = "b\<lparr>count := count b + 1\<rparr>"
  have u: "unat (count b + 1) = unat (count b) + 1"
    using Suc.prems(3) by (simp add: unat_word_ariths)
  have "Replica_times n ?b' =
          Inr (map (\<lambda>j. replicas ?b' ! ((unat (count ?b') + 1 + j) mod length (replicas ?b'))) [0..<n],
               ?b'\<lparr>count := count ?b' + word_of_nat n\<rparr>)"
    using Suc.prems u by (intro Suc.IH) simp_all
  then show ?case
    using Suc.prems(1,2) u
    by (simp add: Replica_value map_upt_Suc add.commute add.left_commute del: upt_Suc)
qed

lemma count_list_rotate: "count_list (rotate n xs) x = count_list xs x"
proof -
  let ?m = "n mod length xs"
  have "count_list xs x = count_list (take ?m xs @ drop ?m xs) x"
    by simp
  also have "\<dots> = count_list (take ?m xs) x + count_list (drop ?m xs) x"
    by (rule count_list_append)
  finally show ?thesis
    by (simp add: rotate_drop_take)
qed

lemma unat_add_of_nat:
  fixes c :: "64 word"
  assumes "unat c + k < 2 ^ 64"
  shows "unat (c + word_of_nat k) = unat c + k"
proof -
  have "k < 2 ^ 64"
    using assms by linarith
  then have "unat (word_of_nat k :: 64 word) = k"
    by (simp add: unat_of_nat)
  then show ?thesis
    using assms by (simp add: unat_add_lem [THEN iffD1])
qed

lemma rotate_add_length: "rotate (m + length xs) xs = rotate m xs"
  by (subst rotate_conv_mod) (simp add: rotate_conv_mod [symmetric])

lemma map_nth_rotate:
  "map (\<lambda>j. xs ! ((m + j) mod length xs)) [0..<length xs] = rotate m xs"
  by (rule nth_equalityI) (simp_all add: nth_rotate)

text \<open>
  When the counter wraps around \<open>2 ^ 64\<close> and the length does not divide \<open>2 ^ 64\<close>,
  the cycle breaks: with three targets and the counter at \<open>2 ^ 64 - 2\<close>, two calls in a
  row return the same target.
\<close>

lemma Replica_times_wrap_repeats:
  "Replica_times 2
     \<lparr>DbMap = Ref 0, replicas = [Ref 1, Ref 2, Ref 3], count = 18446744073709551614,
      masterCanRead = False\<rparr>
     = Inr ([Ref 1, Ref 1],
            \<lparr>DbMap = Ref 0, replicas = [Ref 1, Ref 2, Ref 3], count = 0, masterCanRead = False\<rparr>)"
proof -
  let ?B = "\<lparr>DbMap = Ref 0, replicas = [Ref 1, Ref 2, Ref 3], count = 18446744073709551614,
             masterCanRead = False\<rparr>"
  have r1: "Replica ?B = Inr (Ref 1, ?B\<lparr>count := 18446744073709551615\<rparr>)"
    by (simp add: Replica_value)
  have r2: "Replica (?B\<lparr>count := 18446744073709551615\<rparr>) = Inr (Ref 1, ?B\<lparr>count := 0\<rparr>)"
    by (simp add: Replica_value)
  have "Replica_times (Suc (Suc 0)) ?B = Inr ([Ref 1, Ref 1], ?B\<lparr>count := 0\<rparr>)"
    using r1 r2 by simp
  then show ?thesis
    by (simp add: numeral_2_eq_2)
qed

text \<open>
  C5, as stated: on a read list of length \<open>k > 1\<close>, \<open>k\<close> calls in a row return each
  read target once, in insertion order, and the next \<open>k\<close> calls repeat the cycle. On
  the list \<^verbatim>\<open>[B, C]\<close> of a fresh balancer the two calls return \<^verbatim>\<open>C\<close> and then
  \<^verbatim>\<open>B\<close>, which is not the insertion order.
\<close>

theorem Replica_times_not_insertion_order:
  "Replica_times 2 \<lparr>DbMap = Ref 0, replicas = [Ref 1, Ref 2], count = 0, masterCanRead = False\<rparr>
     = Inr ([Ref 2, Ref 1],
            \<lparr>DbMap = Ref 0, replicas = [Ref 1, Ref 2], count = 2, masterCanRead = False\<rparr>)
   \<and> [Ref 2, Ref 1] \<noteq> replicas \<lparr>DbMap = Ref 0, replicas = [Ref 1, Ref 2], count = 0, masterCanRead = False\<rparr>"
proof -
  let ?B = "\<lparr>DbMap = Ref 0, replicas = [Ref 1, Ref 2], count = 0, masterCanRead = False\<rparr>"
  have m: "(2 :: nat) mod Suc (Suc 0) = 0"
    by (simp add: numeral_2_eq_2)
  have r1: "Replica ?B = Inr (Ref 2, ?B\<lparr>count := 1\<rparr>)"
    by (simp add: Replica_value)
  have r2: "Replica (?B\<lparr>count := 1\<rparr>) = Inr (Ref 1, ?B\<lparr>count := 2\<rparr>)"
    by (simp add: Replica_value m)
  have "Replica_times (Suc (Suc 0)) ?B = Inr ([Ref 2, Ref 1], ?B\<lparr>count := 2\<rparr>)"
    using r1 r2 by simp
  then show ?thesis
    by (simp add: numeral_2_eq_2)
qed

text \<open>
  C5, amended: on a read list of length \<open>k > 1\<close>, as long as the counter does not wrap,
  \<open>k\<close> calls in a row return the read list rotated by the counter plus one (for a fresh
  balancer the second target first and the first target last), so each target once in
  cyclic insertion order (\<open>count_list_rotate\<close>: a rotation holds every element as often
  as the list does), and the next \<open>k\<close> calls return the same sequence.
\<close>

theorem Replica_times_cycle:
  assumes "1 < length (replicas b)"
    and "unat (count b) + 2 * length (replicas b) < 2 ^ 64"
  shows "\<exists>b1 b2.
           Replica_times (length (replicas b)) b
             = Inr (rotate (unat (count b) + 1) (replicas b), b1)
         \<and> Replica_times (length (replicas b)) b1
             = Inr (rotate (unat (count b) + 1) (replicas b), b2)"
proof -
  let ?k = "length (replicas b)"
  let ?r = "rotate (unat (count b) + 1) (replicas b)"
  let ?b1 = "b\<lparr>count := count b + word_of_nat ?k\<rparr>"
  let ?b2 = "?b1\<lparr>count := count ?b1 + word_of_nat ?k\<rparr>"
  have k64: "?k < 2 ^ 64"
    using assms(2) by linarith
  have nowrap: "unat (count b) + ?k < 2 ^ 64"
    using assms(2) by linarith
  have "Replica_times ?k b =
          Inr (map (\<lambda>j. replicas b ! ((unat (count b) + 1 + j) mod ?k)) [0..<?k], ?b1)"
    using assms(1) k64 nowrap by (rule Replica_times_value)
  then have first: "Replica_times ?k b = Inr (?r, ?b1)"
    by (simp only: map_nth_rotate)
  have u: "unat (count ?b1) = unat (count b) + ?k"
    using nowrap by (simp add: unat_add_of_nat)
  have rep1: "replicas ?b1 = replicas b"
    by simp
  have "Replica_times ?k ?b1 =
          Inr (map (\<lambda>j. replicas ?b1 ! ((unat (count ?b1) + 1 + j) mod length (replicas ?b1)))
                 [0..<?k], ?b2)"
  proof (rule Replica_times_value)
    show "1 < length (replicas ?b1)" using assms(1) by simp
    show "length (replicas ?b1) < 2 ^ 64" using k64 by simp
    show "unat (count ?b1) + ?k < 2 ^ 64"
      using assms(2) u by simp
  qed
  then have "Replica_times ?k ?b1 = Inr (rotate (unat (count ?b1) + 1) (replicas b), ?b2)"
    by (simp only: rep1 map_nth_rotate)
  moreover have "rotate (unat (count ?b1) + 1) (replicas b) = ?r"
    using rotate_add_length [of "unat (count b) + 1" "replicas b"]
    by (simp only: u add.assoc add.commute add.left_commute)
  ultimately have second: "Replica_times ?k ?b1 = Inr (?r, ?b2)"
    by (simp only:)
  from first second show ?thesis
    by (intro exI conjI)
qed

theorem Replica_times_cycle_witness:
  "1 < length (replicas \<lparr>DbMap = Ref 0, replicas = [Ref 1, Ref 2, Ref 3], count = 0, masterCanRead = False\<rparr>)
   \<and> (\<exists>b1 b2.
        Replica_times 3 \<lparr>DbMap = Ref 0, replicas = [Ref 1, Ref 2, Ref 3], count = 0, masterCanRead = False\<rparr>
          = Inr ([Ref 2, Ref 3, Ref 1], b1)
      \<and> Replica_times 3 b1 = Inr ([Ref 2, Ref 3, Ref 1], b2))"
proof -
  let ?B = "\<lparr>DbMap = Ref 0, replicas = [Ref 1, Ref 2, Ref 3], count = 0, masterCanRead = False\<rparr>"
  have h1: "1 < length (replicas ?B)"
    by simp
  have h2: "unat (count ?B) + 2 * length (replicas ?B) < 2 ^ 64"
    by simp
  have eqs: "length (replicas ?B) = 3"
    "rotate (unat (count ?B) + 1) (replicas ?B) = [Ref 2, Ref 3, Ref 1]"
    by simp_all
  show ?thesis
    using h1 Replica_times_cycle [OF h1 h2, unfolded eqs] by blast
qed

section \<open>Properties of the fan-out\<close>

lemma last_failure_Nil: "last_failure res [] = None"
  by (simp add: last_failure_def)

lemma last_filter_holds: "filter P xs \<noteq> [] \<Longrightarrow> P (last (filter P xs))"
  using last_in_set [of "filter P xs"] by simp

lemma last_failure_Cons:
  "last_failure res (a # as) =
     (case last_failure res as of Some e \<Rightarrow> Some e | None \<Rightarrow> res a)"
  using last_filter_holds [of "\<lambda>a. res a \<noteq> None" as]
  by (auto simp: last_failure_def Let_def split: option.splits)

lemma last_failure_None_iff:
  "last_failure res as = None \<longleftrightarrow> (\<forall>a \<in> set as. res a = None)"
  by (induction as) (auto simp: last_failure_Nil last_failure_Cons split: option.splits)

lemma range_dbs_value:
  "nil \<notin> set dbs \<Longrightarrow> range_dbs f dbs tr = Inr (tr @ map f (addresses dbs))"
  by (induction f dbs tr rule: range_dbs.induct) auto

lemma last_error_loop_value:
  "nil \<notin> set dbs \<Longrightarrow>
   last_error_loop mk res dbs err tr =
     Inr (case last_failure res (addresses dbs) of None \<Rightarrow> err | Some e \<Rightarrow> Some e,
          tr @ map mk (addresses dbs))"
  by (induction mk res dbs err tr rule: last_error_loop.induct)
     (auto simp: last_failure_Nil last_failure_Cons split: option.splits)

lemma Ping_value:
  "nil \<notin> set (GetAllDbs b) \<Longrightarrow>
   Ping ping b = Inr (last_failure ping (addresses (GetAllDbs b)),
                     map Call_Ping (addresses (GetAllDbs b)))"
  by (simp add: Ping_def last_error_loop_value split: option.splits)

lemma Close_value:
  "nil \<notin> set (GetAllDbs b) \<Longrightarrow>
   Close close b = Inr (last_failure close (addresses (GetAllDbs b)),
                       map Call_Close (addresses (GetAllDbs b)))"
  by (simp add: Close_def last_error_loop_value split: option.splits)

text \<open>
  Revision 2 of \<^verbatim>\<open>Ping\<close> and \<^verbatim>\<open>Close\<close>, on handles that are not \<^verbatim>\<open>nil\<close>: the
  method is called on every handle of \<^verbatim>\<open>GetAllDbs\<close>, in order, whatever the earlier
  results; the error returned is that of the last handle that failed, and it is
  \<^verbatim>\<open>nil\<close> exactly when no handle failed.
\<close>

lemma Ping_Close_attempt_all:
  assumes "nil \<notin> set (GetAllDbs b)"
  shows "\<exists>e1 e2.
           Ping ping b = Inr (e1, map Call_Ping (addresses (GetAllDbs b)))
         \<and> Close close b = Inr (e2, map Call_Close (addresses (GetAllDbs b)))
         \<and> (e1 = None \<longleftrightarrow> (\<forall>a \<in> set (addresses (GetAllDbs b)). ping a = None))
         \<and> (e2 = None \<longleftrightarrow> (\<forall>a \<in> set (addresses (GetAllDbs b)). close a = None))
         \<and> e1 = last_failure ping (addresses (GetAllDbs b))
         \<and> e2 = last_failure close (addresses (GetAllDbs b))"
  using assms by (simp add: Ping_value Close_value last_failure_None_iff)

text \<open>
  C3. The claim: \<^verbatim>\<open>Ping\<close> and \<^verbatim>\<open>Close\<close> attempt every handle whatever the earlier
  failures, and return an error (the last one observed) exactly when a handle failed.
  Revision 2 does so (\<open>Ping_Close_attempt_all\<close>). Revision 1 returns from inside the
  loop at the first error: with a master and two replicas of which the first fails,
  \<^verbatim>\<open>Ping\<close> and \<^verbatim>\<open>Close\<close> never reach the second replica, which stays open after
  \<^verbatim>\<open>Close\<close>. Revision 2 on the same input reaches all three.
\<close>

theorem Ping_r1_Close_r1_stop_at_first_error:
  "Ping_r1 (\<lambda>a. if a = 1 then Some (Error ''down'') else None)
     \<lparr>DbMap = Ref 0, replicas = [Ref 1, Ref 2], count = 0, masterCanRead = False\<rparr>
     = Inr (Some (Error ''down''), [Call_Ping 0, Call_Ping 1])
   \<and> Close_r1 (\<lambda>a. if a = 1 then Some (Error ''busy'') else None)
     \<lparr>DbMap = Ref 0, replicas = [Ref 1, Ref 2], count = 0, masterCanRead = False\<rparr>
     = Inr (Some (Error ''busy''), [Call_Close 0, Call_Close 1])
   \<and> Ping (\<lambda>a. if a = 1 then Some (Error ''down'') else None)
     \<lparr>DbMap = Ref 0, replicas = [Ref 1, Ref 2], count = 0, masterCanRead = False\<rparr>
     = Inr (Some (Error ''down''), [Call_Ping 0, Call_Ping 1, Call_Ping 2])"
  by (simp add: Ping_r1_def Close_r1_def Ping_def GetAllDbs_def)

text \<open>
  C2, as stated: every fan-out operation is applied to the set of distinct handles,
  the master exactly once even when it is in the read list. On the balancer built
  from the single source \<^verbatim>\<open>"A"\<close> the master is the one read target, and
  \<^verbatim>\<open>SetMaxIdleConns\<close> and \<^verbatim>\<open>Ping\<close> call the master's handle twice.
\<close>

theorem fan_out_master_twice:
  "NewBalancer (\<lambda>d c. None) ''mysql'' () ''A'' [] =
     Inr (\<lparr>DbMap = Ref 0, replicas = [Ref 0], count = 0, masterCanRead = True\<rparr>,
          [\<lparr>Db = \<lparr>driverName = ''mysql'', dataSourceName = ''A''\<rparr>, Dialect = ()\<rparr>])
   \<and> SetMaxIdleConns \<lparr>DbMap = Ref 0, replicas = [Ref 0], count = 0, masterCanRead = True\<rparr> 5
     = Inr [Call_SetMaxIdleConns 0 5, Call_SetMaxIdleConns 0 5]
   \<and> Ping (\<lambda>a. None) \<lparr>DbMap = Ref 0, replicas = [Ref 0], count = 0, masterCanRead = True\<rparr>
     = Inr (None, [Call_Ping 0, Call_Ping 0])"
  by (simp add: NewBalancer_def Balancer_zero_def new_def SetMaxIdleConns_def Ping_def GetAllDbs_def)

text \<open>
  C2, amended: on handles that are not \<^verbatim>\<open>nil\<close>, every fan-out operation
  (\<^verbatim>\<open>SetMaxIdleConns\<close>, \<^verbatim>\<open>SetMaxOpenConns\<close>, \<^verbatim>\<open>SetConnMaxLifetime\<close>, and \<^verbatim>\<open>Ping\<close>
  of revision 2) is applied to the master first and then to every element of the read
  list, in order and once per occurrence: the master is called once more than it
  occurs in the read list, so twice when it is a read target.
\<close>

theorem fan_out_every_occurrence:
  assumes "nil \<notin> set (GetAllDbs b)"
  shows "GetAllDbs b = DbMap b # replicas b
       \<and> count_list (GetAllDbs b) (DbMap b) = 1 + count_list (replicas b) (DbMap b)
       \<and> SetMaxIdleConns b n = Inr (map (\<lambda>a. Call_SetMaxIdleConns a n) (addresses (GetAllDbs b)))
       \<and> SetMaxOpenConns b n = Inr (map (\<lambda>a. Call_SetMaxOpenConns a n) (addresses (GetAllDbs b)))
       \<and> SetConnMaxLifetime b d = Inr (map (\<lambda>a. Call_SetConnMaxLifetime a d) (addresses (GetAllDbs b)))
       \<and> Ping ping b = Inr (last_failure ping (addresses (GetAllDbs b)),
                            map Call_Ping (addresses (GetAllDbs b)))"
proof -
  have "GetAllDbs b = DbMap b # replicas b"
    by (simp add: GetAllDbs_def)
  moreover have "count_list (GetAllDbs b) (DbMap b) = 1 + count_list (replicas b) (DbMap b)"
    by (simp add: GetAllDbs_def)
  moreover have "SetMaxIdleConns b n = Inr (map (\<lambda>a. Call_SetMaxIdleConns a n) (addresses (GetAllDbs b)))"
    using assms by (simp add: SetMaxIdleConns_def range_dbs_value)
  moreover have "SetMaxOpenConns b n = Inr (map (\<lambda>a. Call_SetMaxOpenConns a n) (addresses (GetAllDbs b)))"
    using assms by (simp add: SetMaxOpenConns_def range_dbs_value)
  moreover have "SetConnMaxLifetime b d = Inr (map (\<lambda>a. Call_SetConnMaxLifetime a d) (addresses (GetAllDbs b)))"
    using assms by (simp add: SetConnMaxLifetime_def range_dbs_value)
  moreover note Ping_value [OF assms]
  ultimately show ?thesis by blast
qed

theorem fan_out_every_occurrence_witness:
  "nil \<notin> set (GetAllDbs \<lparr>DbMap = Ref 0, replicas = [Ref 1, Ref 0], count = 0, masterCanRead = True\<rparr>)
   \<and> SetMaxIdleConns \<lparr>DbMap = Ref 0, replicas = [Ref 1, Ref 0], count = 0, masterCanRead = True\<rparr> 5
       = Inr [Call_SetMaxIdleConns 0 5, Call_SetMaxIdleConns 1 5, Call_SetMaxIdleConns 0 5]
   \<and> count_list (GetAllDbs \<lparr>DbMap = Ref 0, replicas = [Ref 1, Ref 0], count = 0, masterCanRead = True\<rparr>)
        (Ref 0) = 2"
proof -
  let ?B = "\<lparr>DbMap = Ref 0, replicas = [Ref 1, Ref 0], count = 0, masterCanRead = True\<rparr>"
  have h: "nil \<notin> set (GetAllDbs ?B)"
    by (simp add: GetAllDbs_def)
  have a: "addresses (GetAllDbs ?B) = [0, 1, 0]"
    by (simp add: GetAllDbs_def)
  note t = fan_out_every_occurrence [OF h, of 5 5 "\<lambda>a. None"]
  have "SetMaxIdleConns ?B 5 = Inr [Call_SetMaxIdleConns 0 5, Call_SetMaxIdleConns 1 5, Call_SetMaxIdleConns 0 5]"
    using t a by simp
  moreover have "count_list (GetAllDbs ?B) (Ref 0) = 2"
    using t by simp
  ultimately show ?thesis
    using h by blast
qed

section \<open>Properties of the statement preparation\<close>

lemma Prepare_loop_upt:
  assumes "nil \<notin> set dbs" "k \<le> length dbs" "length sts = length dbs"
  shows "Prepare_loop prepare q dbs [k..<length dbs] sts tr =
     (case dropWhile (\<lambda>a. \<not> isl (prepare a q)) (addresses (drop k dbs)) of
        [] \<Rightarrow> Inr (Inr (take k sts @ map (\<lambda>a. Some (projr (prepare a q))) (addresses (drop k dbs))),
                   tr @ map (\<lambda>a. Call_Prepare a q) (addresses (drop k dbs)))
      | a # rest \<Rightarrow>
          Inr (Inl (projl (prepare a q)),
               tr @ map (\<lambda>a. Call_Prepare a q)
                      (takeWhile (\<lambda>a. \<not> isl (prepare a q)) (addresses (drop k dbs)) @ [a])))"
  using assms
proof (induction "length dbs - k" arbitrary: k sts tr)
  case 0
  then show ?case by simp
next
  case (Suc m)
  then have k: "k < length dbs" by linarith
  then have "dbs ! k \<in> set dbs" by simp
  with Suc.prems(1) obtain a where a: "dbs ! k = Ref a"
    by (cases "dbs ! k") auto
  have upt: "[k..<length dbs] = k # [Suc k..<length dbs]"
    using k by (simp add: upt_conv_Cons)
  have drop: "drop k dbs = Ref a # drop (Suc k) dbs"
    using k a by (simp add: Cons_nth_drop_Suc [symmetric])
  show ?case
  proof (cases "prepare a q")
    case (Inl err)
    then show ?thesis
      using k a by (simp add: upt drop)
  next
    case (Inr s)
    have "Prepare_loop prepare q dbs [Suc k..<length dbs] (sts[k := Some s])
            (tr @ [Call_Prepare a q]) =
          (case dropWhile (\<lambda>a. \<not> isl (prepare a q)) (addresses (drop (Suc k) dbs)) of
             [] \<Rightarrow> Inr (Inr (take (Suc k) (sts[k := Some s])
                             @ map (\<lambda>a. Some (projr (prepare a q))) (addresses (drop (Suc k) dbs))),
                        (tr @ [Call_Prepare a q])
                          @ map (\<lambda>a. Call_Prepare a q) (addresses (drop (Suc k) dbs)))
           | a' # rest \<Rightarrow>
               Inr (Inl (projl (prepare a' q)),
                    (tr @ [Call_Prepare a q]) @ map (\<lambda>a. Call_Prepare a q)
                       (takeWhile (\<lambda>a. \<not> isl (prepare a q)) (addresses (drop (Suc k) dbs)) @ [a'])))"
      using Suc.hyps(2) Suc.prems k by (intro Suc.hyps(1)) simp_all
    moreover have "take (Suc k) (sts[k := Some s]) = take k sts @ [Some s]"
      using k Suc.prems(3) by (simp add: take_Suc_conv_app_nth)
    ultimately show ?thesis
      using k a Inr
      by (cases "dropWhile (\<lambda>a. \<not> isl (prepare a q)) (addresses (drop (Suc k) dbs))")
         (simp_all add: upt drop del: dropWhile_eq_Nil_conv)
  qed
qed

lemma Prepare_value:
  assumes "nil \<notin> set (GetAllDbs b)"
  shows "Prepare prepare b q =
     (case dropWhile (\<lambda>a. \<not> isl (prepare a q)) (addresses (GetAllDbs b)) of
        [] \<Rightarrow> Inr (Inr \<lparr>bl = b, stmts = map (\<lambda>a. Some (projr (prepare a q))) (addresses (GetAllDbs b))\<rparr>,
                   map (\<lambda>a. Call_Prepare a q) (addresses (GetAllDbs b)))
      | a # rest \<Rightarrow>
          Inr (Inl (projl (prepare a q)),
               map (\<lambda>a. Call_Prepare a q)
                 (takeWhile (\<lambda>a. \<not> isl (prepare a q)) (addresses (GetAllDbs b)) @ [a])))"
  using Prepare_loop_upt [OF assms, of 0 "replicate (length (GetAllDbs b)) None" prepare q "[]"]
  by (cases "dropWhile (\<lambda>a. \<not> isl (prepare a q)) (addresses (GetAllDbs b))")
     (simp_all add: Prepare_def Let_def del: dropWhile_eq_Nil_conv)

text \<open>
  C10. The claim: \<^verbatim>\<open>Prepare\<close> stops at the first handle whose preparation fails and
  returns \<^verbatim>\<open>(nil, err)\<close> with that error, without preparing on the handles after it;
  the statements already prepared are neither returned nor closed; and a statement is
  returned exactly when the preparation succeeded on every handle. On handles that are
  not \<^verbatim>\<open>nil\<close>: when every preparation succeeds the result holds one statement per
  element of \<^verbatim>\<open>GetAllDbs\<close>; when the handle \<open>a\<close> is the first to fail, the calls made
  are the preparations up to \<open>a\<close> and nothing else, and the result is the error alone.
\<close>

theorem Prepare_stops_at_first_error:
  assumes "nil \<notin> set (GetAllDbs b)"
  shows "((\<forall>a \<in> set (addresses (GetAllDbs b)). \<not> isl (prepare a q)) \<longrightarrow>
            Prepare prepare b q =
              Inr (Inr \<lparr>bl = b,
                        stmts = map (\<lambda>a. Some (projr (prepare a q))) (addresses (GetAllDbs b))\<rparr>,
                   map (\<lambda>a. Call_Prepare a q) (addresses (GetAllDbs b))))
       \<and> (\<forall>ok a rest err.
            addresses (GetAllDbs b) = ok @ a # rest
            \<and> (\<forall>x \<in> set ok. \<not> isl (prepare x q)) \<and> prepare a q = Inl err \<longrightarrow>
            Prepare prepare b q = Inr (Inl err, map (\<lambda>a. Call_Prepare a q) (ok @ [a])))
       \<and> ((\<exists>st tr. Prepare prepare b q = Inr (Inr st, tr)) \<longleftrightarrow>
            (\<forall>a \<in> set (addresses (GetAllDbs b)). \<not> isl (prepare a q)))"
proof (intro conjI allI impI)
  assume all: "\<forall>a \<in> set (addresses (GetAllDbs b)). \<not> isl (prepare a q)"
  then have "dropWhile (\<lambda>a. \<not> isl (prepare a q)) (addresses (GetAllDbs b)) = []"
    by simp
  then show "Prepare prepare b q =
      Inr (Inr \<lparr>bl = b, stmts = map (\<lambda>a. Some (projr (prepare a q))) (addresses (GetAllDbs b))\<rparr>,
           map (\<lambda>a. Call_Prepare a q) (addresses (GetAllDbs b)))"
    by (simp add: Prepare_value [OF assms] del: dropWhile_eq_Nil_conv)
next
  fix ok a rest err
  assume h: "addresses (GetAllDbs b) = ok @ a # rest
             \<and> (\<forall>x \<in> set ok. \<not> isl (prepare x q)) \<and> prepare a q = Inl err"
  then have "dropWhile (\<lambda>a. \<not> isl (prepare a q)) (addresses (GetAllDbs b)) = a # rest"
    and "takeWhile (\<lambda>a. \<not> isl (prepare a q)) (addresses (GetAllDbs b)) = ok"
    by (simp_all add: dropWhile_append3 takeWhile_tail)
  then show "Prepare prepare b q = Inr (Inl err, map (\<lambda>a. Call_Prepare a q) (ok @ [a]))"
    using h by (simp add: Prepare_value [OF assms])
next
  show "(\<exists>st tr. Prepare prepare b q = Inr (Inr st, tr)) \<longleftrightarrow>
        (\<forall>a \<in> set (addresses (GetAllDbs b)). \<not> isl (prepare a q))"
  proof (cases "dropWhile (\<lambda>a. \<not> isl (prepare a q)) (addresses (GetAllDbs b))")
    case Nil
    moreover from Nil have "\<forall>a \<in> set (addresses (GetAllDbs b)). \<not> isl (prepare a q)"
      by simp
    ultimately show ?thesis
      by (simp add: Prepare_value [OF assms] del: dropWhile_eq_Nil_conv)
  next
    case (Cons a rest)
    then have "\<not> (\<forall>a \<in> set (addresses (GetAllDbs b)). \<not> isl (prepare a q))"
      by (metis dropWhile_eq_Nil_conv list.distinct(1))
    then show ?thesis
      using Cons by (simp add: Prepare_value [OF assms])
  qed
qed

theorem Prepare_stops_at_first_error_witness:
  "nil \<notin> set (GetAllDbs \<lparr>DbMap = Ref 0, replicas = [Ref 1, Ref 2], count = 0, masterCanRead = False\<rparr>)
   \<and> Prepare (\<lambda>a q. if a = 1 then Inl (Error ''syntax'') else Inr a)
       \<lparr>DbMap = Ref 0, replicas = [Ref 1, Ref 2], count = 0, masterCanRead = False\<rparr> ''SELECT 1''
       = Inr (Inl (Error ''syntax''), [Call_Prepare 0 ''SELECT 1'', Call_Prepare 1 ''SELECT 1''])
   \<and> Prepare (\<lambda>a q. Inr a :: error + nat)
       \<lparr>DbMap = Ref 0, replicas = [Ref 1, Ref 2], count = 0, masterCanRead = False\<rparr> ''SELECT 1''
       = Inr (Inr \<lparr>bl = \<lparr>DbMap = Ref 0, replicas = [Ref 1, Ref 2], count = 0, masterCanRead = False\<rparr>,
                   stmts = [Some 0, Some 1, Some 2]\<rparr>,
              [Call_Prepare 0 ''SELECT 1'', Call_Prepare 1 ''SELECT 1'', Call_Prepare 2 ''SELECT 1''])"
proof -
  let ?B = "\<lparr>DbMap = Ref 0, replicas = [Ref 1, Ref 2], count = 0, masterCanRead = False\<rparr>"
  let ?P = "\<lambda>(a :: nat) (q :: string). if a = 1 then Inl (Error ''syntax'') else (Inr a :: error + nat)"
  let ?Q = "\<lambda>(a :: nat) (q :: string). (Inr a :: error + nat)"
  have h: "nil \<notin> set (GetAllDbs ?B)"
    by (simp add: GetAllDbs_def)
  have a: "addresses (GetAllDbs ?B) = [0] @ 1 # [2]"
    by (simp add: GetAllDbs_def)
  have "(\<forall>x \<in> set [0 :: nat]. \<not> isl (?P x ''SELECT 1'')) \<and> ?P 1 ''SELECT 1'' = Inl (Error ''syntax'')"
    by simp
  with a have "Prepare ?P ?B ''SELECT 1'' = Inr (Inl (Error ''syntax''), map (\<lambda>a. Call_Prepare a ''SELECT 1'') ([0] @ [1]))"
    using Prepare_stops_at_first_error [OF h, of ?P "''SELECT 1''"] by blast
  then have c1: "Prepare ?P ?B ''SELECT 1''
                  = Inr (Inl (Error ''syntax''), [Call_Prepare 0 ''SELECT 1'', Call_Prepare 1 ''SELECT 1''])"
    by simp
  have "\<forall>x \<in> set (addresses (GetAllDbs ?B)). \<not> isl (?Q x ''SELECT 1'')"
    by simp
  then have "Prepare ?Q ?B ''SELECT 1'' =
      Inr (Inr \<lparr>bl = ?B, stmts = map (\<lambda>a. Some (projr (?Q a ''SELECT 1''))) (addresses (GetAllDbs ?B))\<rparr>,
           map (\<lambda>a. Call_Prepare a ''SELECT 1'') (addresses (GetAllDbs ?B)))"
    using Prepare_stops_at_first_error [OF h, of ?Q "''SELECT 1''"] by blast
  then have c2: "Prepare ?Q ?B ''SELECT 1''
      = Inr (Inr \<lparr>bl = ?B, stmts = [Some 0, Some 1, Some 2]\<rparr>,
             [Call_Prepare 0 ''SELECT 1'', Call_Prepare 1 ''SELECT 1'', Call_Prepare 2 ''SELECT 1''])"
    using a by simp
  show ?thesis
    using h c1 c2 by blast
qed

end
